theory Spec2Isabelle
  imports Main "HOL-Library.Word" "HOL-Library.Multiset" "HOL-Library.Char_ord"
    "HOL-Library.List_Lexorder"
begin

section \<open>Cluster log entries and the log summary (src/common/LogEntry.h)\<close>

text \<open>
  The header includes \<^verbatim>\<open>include/utime.h\<close>, \<^verbatim>\<open>msg/msg_types.h\<close> and
  \<^verbatim>\<open>common/entity_name.h\<close>, which declare the types \<^verbatim>\<open>utime_t\<close>,
  \<^verbatim>\<open>entity_name_t\<close>, \<^verbatim>\<open>entity_addrvec_t\<close> and \<^verbatim>\<open>EntityName\<close> and the
  specialisation \<^verbatim>\<open>hash<entity_name_t>\<close>. They are taken as parameters here: the four
  types as the type variables \<open>'t\<close>, \<open>'r\<close>, \<open>'a\<close> and \<open>'n\<close>, the hash of an
  \<^verbatim>\<open>entity_name_t\<close> as a function \<open>h\<close> into 64-bit words (it returns a \<^verbatim>\<open>size_t\<close>, which
  \<^verbatim>\<open>_calc_hash\<close> adds to a \<^verbatim>\<open>uint64_t\<close>), and the default-constructed
  \<^verbatim>\<open>entity_name_t\<close> and \<^verbatim>\<open>utime_t\<close> as values \<open>r0\<close> and \<open>t0\<close>.
  \<^verbatim>\<open>uint64_t\<close> and \<^verbatim>\<open>version_t\<close> are 64-bit words, whose addition wraps.
\<close>

type_synonym u64 = "64 word"

subsection \<open>Severities\<close>

datatype clog_type = CLOG_DEBUG | CLOG_INFO | CLOG_SEC | CLOG_WARN | CLOG_ERROR | CLOG_UNKNOWN

fun clog_type_value :: "clog_type \<Rightarrow> int" where
  "clog_type_value CLOG_DEBUG = 0"
| "clog_type_value CLOG_INFO = 1"
| "clog_type_value CLOG_SEC = 2"
| "clog_type_value CLOG_WARN = 3"
| "clog_type_value CLOG_ERROR = 4"
| "clog_type_value CLOG_UNKNOWN = - 1"

subsection \<open>LogEntryKey\<close>

text \<open>The members \<^verbatim>\<open>_hash\<close>, \<^verbatim>\<open>rank\<close>, \<^verbatim>\<open>stamp\<close> and \<^verbatim>\<open>seq\<close> of the key are the
  fields \<open>hash_field\<close>, \<open>key_rank\<close>, \<open>key_stamp\<close> and \<open>key_seq\<close>: a \<^verbatim>\<open>LogEntry\<close> has
  members of the same names.\<close>

record ('r, 't) LogEntryKey =
  hash_field :: u64
  key_rank :: 'r
  key_stamp :: 't
  key_seq :: u64

text \<open>\<^verbatim>\<open>_calc_hash\<close>: \<^verbatim>\<open>_hash = seq + h(rank)\<close>, in 64-bit arithmetic.\<close>

definition calc_hash :: "('r \<Rightarrow> u64) \<Rightarrow> ('r, 't) LogEntryKey \<Rightarrow> ('r, 't) LogEntryKey" where
  "calc_hash h k = k\<lparr>hash_field := key_seq k + h (key_rank k)\<rparr>"

text \<open>The default constructor \<^verbatim>\<open>LogEntryKey() {}\<close>: the member initialisers give
  \<^verbatim>\<open>_hash = 0\<close> and \<^verbatim>\<open>seq = 0\<close>, rank and stamp are default-constructed, and
  \<^verbatim>\<open>_calc_hash\<close> is not called.\<close>

definition LogEntryKey_default :: "'r \<Rightarrow> 't \<Rightarrow> ('r, 't) LogEntryKey" where
  "LogEntryKey_default r0 t0 = \<lparr>hash_field = 0, key_rank = r0, key_stamp = t0, key_seq = 0\<rparr>"

text \<open>The constructor \<^verbatim>\<open>LogEntryKey(w, t, s)\<close>: it sets the three fields and calls
  \<^verbatim>\<open>_calc_hash\<close>.\<close>

definition LogEntryKey_init :: "('r \<Rightarrow> u64) \<Rightarrow> 'r \<Rightarrow> 't \<Rightarrow> u64 \<Rightarrow> ('r, 't) LogEntryKey" where
  "LogEntryKey_init h w t s =
     calc_hash h \<lparr>hash_field = 0, key_rank = w, key_stamp = t, key_seq = s\<rparr>"

definition get_hash :: "('r, 't) LogEntryKey \<Rightarrow> u64" where
  "get_hash k = hash_field k"

text \<open>\<^verbatim>\<open>operator==\<close> compares rank, stamp and seq; it does not read \<^verbatim>\<open>_hash\<close>.\<close>

definition LogEntryKey_eq :: "('r, 't) LogEntryKey \<Rightarrow> ('r, 't) LogEntryKey \<Rightarrow> bool" where
  "LogEntryKey_eq l r \<longleftrightarrow>
     key_rank l = key_rank r \<and> key_stamp l = key_stamp r \<and> key_seq l = key_seq r"

subsection \<open>LogEntry\<close>

record ('n, 'r, 'a, 't) LogEntry =
  name :: 'n
  rank :: 'r
  addrs :: 'a
  stamp :: 't
  seq :: u64
  prio :: clog_type
  msg :: string
  channel :: string

text \<open>\<^verbatim>\<open>LogEntry::key()\<close> builds the key with the three-argument constructor.\<close>

definition key :: "('r \<Rightarrow> u64) \<Rightarrow> ('n, 'r, 'a, 't) LogEntry \<Rightarrow> ('r, 't) LogEntryKey" where
  "key h e = LogEntryKey_init h (rank e) (stamp e) (seq e)"

subsection \<open>LogSummary\<close>

text \<open>
  \<^verbatim>\<open>tail_by_channel\<close> is a \<^verbatim>\<open>std::map\<close> from channel names to lists of pairs: an
  association list, which the operations keep in the order of the keys, the order in which
  a \<^verbatim>\<open>std::map\<close> is iterated. \<^verbatim>\<open>keys\<close> is an unordered set of keys: a set. Every key
  that the summary inserts, erases or holds is built by \<open>key\<close>, and on such keys
  \<^verbatim>\<open>operator==\<close> is equality of the records (lemma \<open>LogEntryKey_eq_init\<close> below).
  The member \<^verbatim>\<open>seq\<close> of the summary is the field \<open>summary_seq\<close>.
\<close>

type_synonym ('n, 'r, 'a, 't) tail = "(u64 \<times> ('n, 'r, 'a, 't) LogEntry) list"

record ('n, 'r, 'a, 't) LogSummary =
  version :: u64
  tail_by_channel :: "(string \<times> ('n, 'r, 'a, 't) tail) list"
  summary_seq :: u64
  keys :: "('r, 't) LogEntryKey set"

text \<open>\<^verbatim>\<open>LogSummary() : version(0)\<close>, with \<^verbatim>\<open>seq = 0\<close> and empty containers.\<close>

definition LogSummary_init :: "('n, 'r, 'a, 't) LogSummary" where
  "LogSummary_init = \<lparr>version = 0, tail_by_channel = [], summary_seq = 0, keys = {}\<rparr>"

text \<open>\<^verbatim>\<open>std::map::operator[]\<close>: the entry of the key when there is one, otherwise a new
  entry with an empty list, inserted at the key's place in the order.\<close>

fun insert_channel :: "string \<Rightarrow> 'v \<Rightarrow> (string \<times> 'v) list \<Rightarrow> (string \<times> 'v) list" where
  "insert_channel c v [] = [(c, v)]"
| "insert_channel c v ((c', l) # m) =
     (if c < c' then (c, v) # (c', l) # m else (c', l) # insert_channel c v m)"

definition subscript :: "string \<Rightarrow> (string \<times> 'v list) list \<Rightarrow> (string \<times> 'v list) list" where
  "subscript c m = (if c \<in> fst ` set m then m else insert_channel c [] m)"

text \<open>\<^verbatim>\<open>push_back\<close> on the list that \<^verbatim>\<open>operator[]\<close> returned.\<close>

fun push_back_at :: "string \<Rightarrow> 'v \<Rightarrow> (string \<times> 'v list) list \<Rightarrow> (string \<times> 'v list) list" where
  "push_back_at c x [] = []"
| "push_back_at c x ((c', l) # m) =
     (if c' = c then (c', l @ [x]) # m else (c', l) # push_back_at c x m)"

definition add ::
  "('r \<Rightarrow> u64) \<Rightarrow> ('n, 'r, 'a, 't) LogEntry \<Rightarrow> ('n, 'r, 'a, 't) LogSummary
     \<Rightarrow> ('n, 'r, 'a, 't) LogSummary" where
  "add h e s =
     s\<lparr>keys := insert (key h e) (keys s),
       tail_by_channel :=
         push_back_at (channel e) (summary_seq s + 1, e)
           (subscript (channel e) (tail_by_channel s)),
       summary_seq := summary_seq s + 1\<rparr>"

text \<open>The inner loop of \<^verbatim>\<open>prune\<close>: while the list is longer than \<^verbatim>\<open>max\<close> (here
  \<open>mx\<close>, a \<^verbatim>\<open>size_t\<close> that is only compared with the size of a list: a natural number),
  erase the key of its front entry and pop the front.\<close>

fun prune_list ::
  "('r \<Rightarrow> u64) \<Rightarrow> nat \<Rightarrow> ('n, 'r, 'a, 't) tail \<Rightarrow> ('r, 't) LogEntryKey set
     \<Rightarrow> ('n, 'r, 'a, 't) tail \<times> ('r, 't) LogEntryKey set" where
  "prune_list h mx [] ks = ([], ks)"
| "prune_list h mx (x # xs) ks =
     (if length (x # xs) > mx then prune_list h mx xs (ks - {key h (snd x)})
      else (x # xs, ks))"

text \<open>The outer loop of \<^verbatim>\<open>prune\<close>, over the channels in the order of the map.\<close>

fun prune_channels ::
  "('r \<Rightarrow> u64) \<Rightarrow> nat \<Rightarrow> (string \<times> ('n, 'r, 'a, 't) tail) list \<Rightarrow> ('r, 't) LogEntryKey set
     \<Rightarrow> (string \<times> ('n, 'r, 'a, 't) tail) list \<times> ('r, 't) LogEntryKey set" where
  "prune_channels h mx [] ks = ([], ks)"
| "prune_channels h mx ((c, l) # m) ks =
     (case prune_list h mx l ks of (l', ks') \<Rightarrow>
        (case prune_channels h mx m ks' of (m', ks'') \<Rightarrow> ((c, l') # m', ks'')))"

definition prune ::
  "('r \<Rightarrow> u64) \<Rightarrow> nat \<Rightarrow> ('n, 'r, 'a, 't) LogSummary \<Rightarrow> ('n, 'r, 'a, 't) LogSummary" where
  "prune h mx s =
     (case prune_channels h mx (tail_by_channel s) (keys s) of
        (m, ks) \<Rightarrow> s\<lparr>tail_by_channel := m, keys := ks\<rparr>)"

text \<open>\<^verbatim>\<open>unordered_set::count\<close> (here \<open>count_key\<close>) is 0 or 1; \<^verbatim>\<open>contains\<close> returns
  it as a \<^verbatim>\<open>bool\<close>.\<close>

definition count_key :: "'k set \<Rightarrow> 'k \<Rightarrow> nat" where
  "count_key ks k = (if k \<in> ks then 1 else 0)"

definition contains :: "('n, 'r, 'a, 't) LogSummary \<Rightarrow> ('r, 't) LogEntryKey \<Rightarrow> bool" where
  "contains s k \<longleftrightarrow> count_key (keys s) k \<noteq> 0"

subsection \<open>Views of a summary\<close>

text \<open>The list of a channel, empty when the map has no such channel.\<close>

definition channel_tail :: "('n, 'r, 'a, 't) LogSummary \<Rightarrow> string \<Rightarrow> ('n, 'r, 'a, 't) tail" where
  "channel_tail s c = (case map_of (tail_by_channel s) c of None \<Rightarrow> [] | Some l \<Rightarrow> l)"

text \<open>All stored pairs, channel after channel, and the keys of the stored records.\<close>

definition all_entries :: "('n, 'r, 'a, 't) LogSummary \<Rightarrow> ('n, 'r, 'a, 't) tail" where
  "all_entries s = concat (map snd (tail_by_channel s))"

definition retained_keys ::
  "('r \<Rightarrow> u64) \<Rightarrow> ('n, 'r, 'a, 't) LogSummary \<Rightarrow> ('r, 't) LogEntryKey list" where
  "retained_keys h s = map (\<lambda>p. key h (snd p)) (all_entries s)"

text \<open>The pairs that \<open>prune h mx\<close> pops: of each channel, all but its last \<open>mx\<close>.\<close>

definition popped_entries :: "nat \<Rightarrow> ('n, 'r, 'a, 't) LogSummary \<Rightarrow> ('n, 'r, 'a, 't) tail" where
  "popped_entries mx s = concat (map (\<lambda>(c, l). take (length l - mx) l) (tail_by_channel s))"

subsection \<open>Runs of the two mutating operations\<close>

text \<open>A caller's sequence of calls to \<^verbatim>\<open>add\<close> and \<^verbatim>\<open>prune\<close>, run from a summary.\<close>

datatype ('n, 'r, 'a, 't) op = Add "('n, 'r, 'a, 't) LogEntry" | Prune nat

fun exec ::
  "('r \<Rightarrow> u64) \<Rightarrow> ('n, 'r, 'a, 't) op list \<Rightarrow> ('n, 'r, 'a, 't) LogSummary
     \<Rightarrow> ('n, 'r, 'a, 't) LogSummary" where
  "exec h [] s = s"
| "exec h (Add e # ops) s = exec h ops (add h e s)"
| "exec h (Prune mx # ops) s = exec h ops (prune h mx s)"

text \<open>A run is guarded when the caller admits a record only if \<^verbatim>\<open>contains\<close> is false on
  its key, the use of \<^verbatim>\<open>contains\<close> as a guard against a second delivery.\<close>

fun guarded ::
  "('r \<Rightarrow> u64) \<Rightarrow> ('n, 'r, 'a, 't) op list \<Rightarrow> ('n, 'r, 'a, 't) LogSummary \<Rightarrow> bool" where
  "guarded h [] s = True"
| "guarded h (Add e # ops) s = (\<not> contains s (key h e) \<and> guarded h ops (add h e s))"
| "guarded h (Prune mx # ops) s = guarded h ops (prune h mx s)"

text \<open>The number of admissions of a run, and the sequence numbers they are given, in the
  order of the admissions: \<^verbatim>\<open>add\<close> stores \<^verbatim>\<open>make_pair(++seq, e)\<close> at the back of the
  channel of \<open>e\<close>.\<close>

fun admissions :: "('n, 'r, 'a, 't) op list \<Rightarrow> nat" where
  "admissions [] = 0"
| "admissions (Add e # ops) = Suc (admissions ops)"
| "admissions (Prune mx # ops) = admissions ops"

fun assigned ::
  "('r \<Rightarrow> u64) \<Rightarrow> ('n, 'r, 'a, 't) op list \<Rightarrow> ('n, 'r, 'a, 't) LogSummary \<Rightarrow> u64 list" where
  "assigned h [] s = []"
| "assigned h (Add e # ops) s =
     fst (last (channel_tail (add h e s) (channel e))) # assigned h ops (add h e s)"
| "assigned h (Prune mx # ops) s = assigned h ops (prune h mx s)"

text \<open>Every channel's sequence numbers increase strictly (as unsigned 64-bit values) and
  none is above the counter.\<close>

definition bounded_increasing :: "('n, 'r, 'a, 't) LogSummary \<Rightarrow> bool" where
  "bounded_increasing s \<longleftrightarrow>
     (\<forall>(c, l) \<in> set (tail_by_channel s).
        sorted_wrt (<) (map fst l) \<and> (\<forall>q \<in> set (map fst l). q \<le> summary_seq s))"

section \<open>Functions that the header only declares\<close>

text \<open>
  \<^verbatim>\<open>LogSummary::build_ordered_tail\<close>, \<^verbatim>\<open>LogEntry::str_to_level\<close> and
  \<^verbatim>\<open>string_to_clog_type\<close> are declared in the header and defined elsewhere. So are
  \<^verbatim>\<open>encode\<close>, \<^verbatim>\<open>decode\<close> and \<^verbatim>\<open>generate_test_instances\<close>, whose wire format and
  fixtures neither the header nor the specification gives: they have no model here.
\<close>

subsection \<open>The ordered tail\<close>








subsection \<open>Parsing a severity\<close>

text \<open>Modelled from the spec: the bodies of \<^verbatim>\<open>LogEntry::str_to_level\<close> and
  \<^verbatim>\<open>string_to_clog_type\<close> are missing, and so is the table of severity names, which is
  the parameter \<open>tbl\<close>. The spec describes a case-insensitive match of the text against
  the table, with \<^verbatim>\<open>CLOG_UNKNOWN\<close> when no entry matches. Letters are compared after
  \<open>tolower\<close>, which maps the ASCII capitals to the small letters.\<close>

definition tolower :: "char \<Rightarrow> char" where
  "tolower c =
     (if CHR ''A'' \<le> c \<and> c \<le> CHR ''Z'' then char_of (of_char c + (32 :: nat)) else c)"

definition iequals :: "string \<Rightarrow> string \<Rightarrow> bool" where
  "iequals s t \<longleftrightarrow> map tolower s = map tolower t"

fun parse_severity :: "(string \<times> clog_type) list \<Rightarrow> string \<Rightarrow> clog_type" where
  "parse_severity [] text = CLOG_UNKNOWN"
| "parse_severity ((n, t) # tbl) text = (if iequals text n then t else parse_severity tbl text)"

section \<open>Sample values\<close>

text \<open>A hash of entity names, records and a table of severity names for the concrete
  instances below. In \<open>scenario_A\<close> the records X, Y and Z are admitted in this order, X
  and Z to the channel \<^verbatim>\<open>cluster\<close> and Y to the channel \<^verbatim>\<open>audit\<close>.\<close>

definition sample_hash :: "nat \<Rightarrow> u64" where
  "sample_hash r = of_nat r + 1"

definition sample_entry :: "nat \<Rightarrow> u64 \<Rightarrow> string \<Rightarrow> (unit, nat, unit, nat) LogEntry" where
  "sample_entry t q c =
     \<lparr>name = (), rank = 0, addrs = (), stamp = t, seq = q, prio = CLOG_INFO, msg = ''m'',
      channel = c\<rparr>"

definition scenario_A :: "(unit, nat, unit, nat) op list" where
  "scenario_A =
     [Add (sample_entry 1 1 ''cluster''), Add (sample_entry 2 2 ''audit''),
      Add (sample_entry 3 3 ''cluster'')]"

definition sample_table :: "(string \<times> clog_type) list" where
  "sample_table =
     [(''debug'', CLOG_DEBUG), (''info'', CLOG_INFO), (''sec'', CLOG_SEC),
      (''warn'', CLOG_WARN), (''error'', CLOG_ERROR)]"

section \<open>Properties\<close>

subsection \<open>Keys\<close>

lemma get_hash_init: "get_hash (LogEntryKey_init h w t s) = s + h w"
  by (simp add: get_hash_def LogEntryKey_init_def calc_hash_def)

lemma LogEntryKey_eq_init:
  "LogEntryKey_eq (LogEntryKey_init h w t s) (LogEntryKey_init h w' t' s')
     \<longleftrightarrow> LogEntryKey_init h w t s = LogEntryKey_init h w' t' s'"
  by (auto simp: LogEntryKey_eq_def LogEntryKey_init_def calc_hash_def)

lemma init_hash_ignores_stamp:
  "t1 \<noteq> t2 \<Longrightarrow>
     \<not> LogEntryKey_eq (LogEntryKey_init h w t1 s) (LogEntryKey_init h w t2 s)
     \<and> get_hash (LogEntryKey_init h w t1 s) = get_hash (LogEntryKey_init h w t2 s)
     \<and> get_hash (LogEntryKey_init h w t1 s) = s + h w"
  by (simp add: get_hash_init) (simp add: LogEntryKey_eq_def LogEntryKey_init_def calc_hash_def)

subsection \<open>The map of channels\<close>

lemma map_of_insert_channel:
  "c \<notin> fst ` set m \<Longrightarrow> map_of (insert_channel c v m) = (map_of m)(c \<mapsto> v)"
  by (induction m) (auto simp: fun_upd_twist)

lemma map_of_push_back_at:
  "map_of m c = Some l \<Longrightarrow> map_of (push_back_at c x m) = (map_of m)(c \<mapsto> l @ [x])"
  by (induction m) (auto simp: fun_upd_twist split: if_splits)

lemma map_of_subscript:
  "map_of (subscript c m) c = Some (case map_of m c of None \<Rightarrow> [] | Some l \<Rightarrow> l)"
  by (auto simp: subscript_def map_of_insert_channel map_of_eq_None_iff split: option.splits)
     (metis domI domIff map_of_eq_None_iff)

lemma map_of_subscript_other:
  "c' \<noteq> c \<Longrightarrow> map_of (subscript c m) c' = map_of m c'"
  by (auto simp: subscript_def map_of_insert_channel)

subsection \<open>What the loops of prune compute\<close>

lemma prune_list_eq:
  "prune_list h mx l ks =
     (drop (length l - mx) l, ks - (\<lambda>p. key h (snd p)) ` set (take (length l - mx) l))"
proof (induction l arbitrary: ks)
  case Nil
  show ?case by simp
next
  case (Cons x xs)
  show ?case
  proof (cases "length (x # xs) > mx")
    case True
    then have d: "length (x # xs) - mx = Suc (length xs - mx)" by simp
    have "prune_list h mx (x # xs) ks = prune_list h mx xs (ks - {key h (snd x)})"
      using True by simp
    also have "\<dots> = (drop (length xs - mx) xs,
        ks - {key h (snd x)} - (\<lambda>p. key h (snd p)) ` set (take (length xs - mx) xs))"
      by (rule Cons.IH)
    also have "\<dots> = (drop (length (x # xs) - mx) (x # xs),
        ks - (\<lambda>p. key h (snd p)) ` set (take (length (x # xs) - mx) (x # xs)))"
      unfolding d by auto
    finally show ?thesis .
  next
    case False
    then show ?thesis by simp
  qed
qed

lemma prune_channels_eq:
  "prune_channels h mx m ks =
     (map (\<lambda>(c, l). (c, drop (length l - mx) l)) m,
      ks - (\<lambda>p. key h (snd p)) ` set (concat (map (\<lambda>(c, l). take (length l - mx) l) m)))"
proof (induction m arbitrary: ks)
  case Nil
  show ?case by simp
next
  case (Cons a m)
  obtain c l where a: "a = (c, l)" by (cases a)
  show ?case
    by (auto simp add: a prune_list_eq Cons.IH)
qed

subsection \<open>The effect of add and prune on the channels\<close>

lemma tail_by_channel_prune:
  "tail_by_channel (prune h mx s) = map (\<lambda>(c, l). (c, drop (length l - mx) l)) (tail_by_channel s)"
  by (simp add: prune_def prune_channels_eq)

lemma keys_prune:
  "keys (prune h mx s) =
     keys s - (\<lambda>p. key h (snd p)) `
       set (concat (map (\<lambda>(c, l). take (length l - mx) l) (tail_by_channel s)))"
  by (simp add: prune_def prune_channels_eq)

lemma summary_seq_prune: "summary_seq (prune h mx s) = summary_seq s"
  by (simp add: prune_def prune_channels_eq)

lemma map_of_dropped:
  "map_of (map (\<lambda>(c, l). (c, drop (length l - mx) l)) m) c
     = map_option (\<lambda>l. drop (length l - mx) l) (map_of m c)"
  by (induction m) auto

lemma channel_tail_prune:
  "channel_tail (prune h mx s) c = drop (length (channel_tail s c) - mx) (channel_tail s c)"
  by (simp add: channel_tail_def tail_by_channel_prune map_of_dropped split: option.splits)

lemma channel_tail_add:
  "channel_tail (add h e s) c =
     channel_tail s c @ (if c = channel e then [(summary_seq s + 1, e)] else [])"
proof -
  let ?m = "subscript (channel e) (tail_by_channel s)"
  have m: "map_of ?m (channel e) = Some (channel_tail s (channel e))"
    by (simp add: map_of_subscript channel_tail_def)
  have "map_of (tail_by_channel (add h e s)) =
          (map_of ?m)(channel e \<mapsto> channel_tail s (channel e) @ [(summary_seq s + 1, e)])"
    by (simp add: add_def map_of_push_back_at [OF m])
  then show ?thesis
    by (auto simp: channel_tail_def map_of_subscript_other)
qed

lemma summary_seq_add: "summary_seq (add h e s) = summary_seq s + 1"
  by (simp add: add_def)

lemma assigned_add: "fst (last (channel_tail (add h e s) (channel e))) = summary_seq s + 1"
  by (simp add: channel_tail_add)

subsection \<open>The stored entries as a multiset\<close>

lemma set_insert_channel: "set (insert_channel c v m) = insert (c, v) (set m)"
  by (induction m) (auto split: if_splits)

lemma fst_set_subscript: "c \<in> fst ` set (subscript c m)"
proof -
  have "set (insert_channel c v m) = insert (c, v) (set m)" for v :: "'a list"
    by (induction m) (auto split: if_splits)
  then show ?thesis by (simp add: subscript_def)
qed

lemma mset_insert_channel:
  "mset (concat (map snd (insert_channel c [] m))) = mset (concat (map snd m))"
  by (induction m) auto

lemma mset_push_back_at:
  "c \<in> fst ` set m \<Longrightarrow>
     mset (concat (map snd (push_back_at c x m))) = add_mset x (mset (concat (map snd m)))"
proof (induction m)
  case Nil
  then show ?case by simp
next
  case (Cons a m)
  obtain c' l where a: "a = (c', l)" by (cases a)
  show ?case
  proof (cases "c' = c")
    case True
    then show ?thesis by (simp add: a)
  next
    case False
    then have "c \<in> fst ` set m" using Cons.prems by (simp add: a)
    then show ?thesis using False by (simp add: a Cons.IH)
  qed
qed

lemma mset_all_entries_add:
  "mset (all_entries (add h e s)) = add_mset (summary_seq s + 1, e) (mset (all_entries s))"
proof -
  have "mset (concat (map snd (subscript (channel e) (tail_by_channel s))))
          = mset (all_entries s)"
    by (simp add: subscript_def mset_insert_channel all_entries_def)
  then show ?thesis
    by (simp add: all_entries_def add_def mset_push_back_at [OF fst_set_subscript])
qed

lemma mset_retained_keys_add:
  "mset (retained_keys h (add h e s)) = add_mset (key h e) (mset (retained_keys h s))"
proof -
  have "mset (retained_keys h (add h e s))
          = image_mset (\<lambda>p. key h (snd p)) (mset (all_entries (add h e s)))"
    by (simp add: retained_keys_def)
  then show ?thesis
    by (simp add: mset_all_entries_add retained_keys_def)
qed

lemma mset_take_drop_channels:
  "mset (concat (map snd m))
     = mset (concat (map (\<lambda>(c, l). take (length l - mx) l) m))
       + mset (concat (map snd (map (\<lambda>(c, l). (c, drop (length l - mx) l)) m)))"
proof (induction m)
  case Nil
  show ?case by simp
next
  case (Cons a m)
  obtain c l where a: "a = (c, l)" by (cases a)
  have "mset l = mset (take (length l - mx) l) + mset (drop (length l - mx) l)"
    by (simp flip: mset_append)
  then show ?case by (simp add: a Cons.IH)
qed

lemma mset_all_entries_prune:
  "mset (all_entries s) = mset (popped_entries mx s) + mset (all_entries (prune h mx s))"
  by (simp add: all_entries_def popped_entries_def tail_by_channel_prune
      mset_take_drop_channels [of _ mx])

lemma add_keeps_mirror:
  assumes "keys s = set (retained_keys h s)"
  shows "keys (add h e s) = set (retained_keys h (add h e s))"
proof -
  have "set_mset (mset (retained_keys h (add h e s)))
          = set_mset (add_mset (key h e) (mset (retained_keys h s)))"
    by (simp only: mset_retained_keys_add)
  then have "set (retained_keys h (add h e s)) = insert (key h e) (set (retained_keys h s))"
    by simp
  then show ?thesis using assms by (simp add: add_def)
qed

lemma prune_keeps_mirror:
  assumes k: "keys s = set (retained_keys h s)" and d: "distinct (retained_keys h s)"
  shows "keys (prune h mx s) = set (retained_keys h (prune h mx s))"
    and "distinct (retained_keys h (prune h mx s))"
proof -
  let ?f = "\<lambda>p. key h (snd p)"
  let ?P = "popped_entries mx s" and ?R = "all_entries (prune h mx s)"
  have "mset (map ?f (all_entries s)) = mset (map ?f (?P @ ?R))"
    using mset_all_entries_prune [of s mx h] by simp
  then have "distinct (map ?f (all_entries s)) \<longleftrightarrow> distinct (map ?f (?P @ ?R))"
    and s: "set (map ?f (all_entries s)) = set (map ?f (?P @ ?R))"
    by (rule mset_eq_imp_distinct_iff, rule mset_eq_setD)
  then have "distinct (map ?f (?P @ ?R))"
    using d by (simp add: retained_keys_def)
  then have dR: "distinct (map ?f ?R)" and dis: "?f ` set ?P \<inter> ?f ` set ?R = {}"
    by auto
  show "distinct (retained_keys h (prune h mx s))"
    using dR by (simp add: retained_keys_def)
  have "keys (prune h mx s) = keys s - ?f ` set ?P"
    by (simp add: keys_prune popped_entries_def)
  also have "\<dots> = (?f ` set ?P \<union> ?f ` set ?R) - ?f ` set ?P"
    using k s by (simp add: retained_keys_def image_Un)
  also have "\<dots> = ?f ` set ?R"
    using dis by auto
  finally show "keys (prune h mx s) = set (retained_keys h (prune h mx s))"
    by (simp add: retained_keys_def)
qed

subsection \<open>Sequence numbers below the wrap\<close>

lemma unat_succ:
  fixes x :: u64
  assumes "unat x + 1 < 2 ^ 64"
  shows "unat (x + 1) = unat x + 1"
proof -
  have "unat x + unat (1 :: u64) < 2 ^ LENGTH(64)" using assms by simp
  then have "unat (x + 1) = unat x + unat (1 :: u64)" by (simp only: unat_add_lem)
  then show ?thesis by simp
qed

lemma word_less_succ:
  fixes x :: u64
  assumes "unat x + 1 < 2 ^ 64"
  shows "x < x + 1"
  using unat_succ [OF assms] by (simp add: word_less_nat_alt)

lemma in_push_back_at:
  "(c', l') \<in> set (push_back_at c x m) \<Longrightarrow>
     (c', l') \<in> set m \<or> (\<exists>l. (c', l) \<in> set m \<and> l' = l @ [x])"
proof (induction m)
  case Nil
  then show ?case by simp
next
  case (Cons a m)
  obtain d l where a: "a = (d, l)" by (cases a)
  show ?case
  proof (cases "d = c")
    case True
    then show ?thesis using Cons.prems by (auto simp: a)
  next
    case False
    then have "(c', l') = (d, l) \<or> (c', l') \<in> set (push_back_at c x m)"
      using Cons.prems by (simp add: a)
    then show ?thesis using Cons.IH by (auto simp: a)
  qed
qed

lemma in_tail_add:
  assumes "(c', l') \<in> set (tail_by_channel (add h e s))"
  shows "\<exists>l. ((c', l) \<in> set (tail_by_channel s) \<or> l = [])
              \<and> (l' = l \<or> l' = l @ [(summary_seq s + 1, e)])"
proof -
  let ?x = "(summary_seq s + 1, e)"
  let ?m = "subscript (channel e) (tail_by_channel s)"
  from assms have "(c', l') \<in> set (push_back_at (channel e) ?x ?m)"
    by (simp add: add_def)
  then have "(c', l') \<in> set ?m \<or> (\<exists>l. (c', l) \<in> set ?m \<and> l' = l @ [?x])"
    by (rule in_push_back_at)
  moreover have "set ?m \<subseteq> insert (channel e, []) (set (tail_by_channel s))"
    by (auto simp: subscript_def set_insert_channel)
  ultimately show ?thesis by blast
qed

lemma bounded_increasing_add:
  assumes J: "bounded_increasing s" and b: "unat (summary_seq s) + 1 < 2 ^ 64"
  shows "bounded_increasing (add h e s)"
proof -
  have lt: "summary_seq s < summary_seq s + 1" using b by (rule word_less_succ)
  have "sorted_wrt (<) (map fst l') \<and> (\<forall>q \<in> set (map fst l'). q \<le> summary_seq s + 1)"
    if "(c', l') \<in> set (tail_by_channel (add h e s))" for c' l'
  proof -
    from in_tail_add [OF that] obtain l where
      l: "(c', l) \<in> set (tail_by_channel s) \<or> l = []"
      and l': "l' = l \<or> l' = l @ [(summary_seq s + 1, e)]" by blast
    have Jl: "sorted_wrt (<) (map fst l) \<and> (\<forall>q \<in> set (map fst l). q \<le> summary_seq s)"
      using l J by (auto simp: bounded_increasing_def)
    then have less: "\<forall>q \<in> set (map fst l). q < summary_seq s + 1"
      using lt by auto
    then have le: "\<forall>q \<in> set (map fst l). q \<le> summary_seq s + 1"
      using less_imp_le by blast
    show ?thesis
    proof (cases "l' = l")
      case True
      then show ?thesis using Jl le by simp
    next
      case False
      then have "map fst l' = map fst l @ [summary_seq s + 1]" using l' by simp
      then show ?thesis using Jl less le by (simp add: sorted_wrt_append)
    qed
  qed
  then show ?thesis by (auto simp: bounded_increasing_def summary_seq_add)
qed

lemma bounded_increasing_prune:
  assumes J: "bounded_increasing s"
  shows "bounded_increasing (prune h mx s)"
proof -
  have "sorted_wrt (<) (map fst (drop n l)) \<and> (\<forall>q \<in> set (map fst (drop n l)). q \<le> summary_seq s)"
    if "(c, l) \<in> set (tail_by_channel s)" for c l n
  proof -
    from that J have a: "sorted_wrt (<) (map fst l)" and b: "\<forall>q \<in> set (map fst l). q \<le> summary_seq s"
      by (auto simp: bounded_increasing_def)
    have "sorted_wrt (<) (drop n (map fst l))" using a by (rule sorted_wrt_drop)
    moreover have "set (drop n l) \<subseteq> set l" by (rule set_drop_subset)
    ultimately show ?thesis using b by (auto simp: drop_map)
  qed
  then show ?thesis
    by (auto simp: bounded_increasing_def tail_by_channel_prune summary_seq_prune)
qed

lemma assigned_increasing:
  assumes "bounded_increasing s" and "unat (summary_seq s) + admissions ops < 2 ^ 64"
  shows "bounded_increasing (exec h ops s)
         \<and> sorted_wrt (<) (assigned h ops s)
         \<and> (\<forall>q \<in> set (assigned h ops s). summary_seq s < q)"
  using assms
proof (induction ops arbitrary: s)
  case Nil
  then show ?case by simp
next
  case (Cons a ops)
  show ?case
  proof (cases a)
    case (Add e)
    have b: "unat (summary_seq s) + 1 < 2 ^ 64" using Cons.prems(2) Add by simp
    have lt: "summary_seq s < summary_seq s + 1" using b by (rule word_less_succ)
    have u: "unat (summary_seq (add h e s)) = unat (summary_seq s) + 1"
      using b by (simp add: summary_seq_add unat_succ)
    have J': "bounded_increasing (add h e s)"
      using Cons.prems(1) b by (rule bounded_increasing_add)
    have "unat (summary_seq (add h e s)) + admissions ops < 2 ^ 64"
      using Cons.prems(2) Add u by simp
    from Cons.IH [OF J' this]
    have IH: "bounded_increasing (exec h ops (add h e s))"
      "sorted_wrt (<) (assigned h ops (add h e s))"
      "\<forall>q \<in> set (assigned h ops (add h e s)). summary_seq s + 1 < q"
      by (simp_all add: summary_seq_add)
    have "\<forall>q \<in> set (assigned h ops (add h e s)). summary_seq s < q"
      using IH(3) lt by auto
    then show ?thesis
      using IH lt by (simp add: Add assigned_add)
  next
    case (Prune mx)
    have J': "bounded_increasing (prune h mx s)"
      using Cons.prems(1) by (rule bounded_increasing_prune)
    have "unat (summary_seq (prune h mx s)) + admissions ops < 2 ^ 64"
      using Cons.prems(2) Prune by (simp add: summary_seq_prune)
    from Cons.IH [OF J' this] show ?thesis
      by (simp add: Prune summary_seq_prune)
  qed
qed

lemma bounded_increasing_init: "bounded_increasing LogSummary_init"
  by (simp add: bounded_increasing_def LogSummary_init_def)

lemma summary_seq_exec: "summary_seq (exec h ops s) = summary_seq s + of_nat (admissions ops)"
proof (induction ops arbitrary: s)
  case Nil
  show ?case by simp
next
  case (Cons a ops)
  show ?case by (cases a) (simp_all add: Cons.IH summary_seq_add summary_seq_prune)
qed

lemma assigned_append:
  "assigned h (ops @ ops') s = assigned h ops s @ assigned h ops' (exec h ops s)"
proof (induction ops arbitrary: s)
  case Nil
  show ?case by simp
next
  case (Cons a ops)
  show ?case by (cases a) (simp_all add: Cons.IH)
qed

lemma admissions_replicate_Add: "admissions (replicate n (Add e)) = n"
  by (induction n) simp_all

lemma assigned_scenario_A:
  "assigned h scenario_A s = [summary_seq s + 1, summary_seq s + 2, summary_seq s + 3]"
  by (simp add: scenario_A_def assigned_add summary_seq_add)

subsection \<open>The merge\<close>








subsection \<open>A run that wraps the counter\<close>







section \<open>The claims\<close>

subsection \<open>C1: the set of keys and the retained records\<close>

text \<open>
  C1 (as amended). In every state reached from a summary whose \<open>keys\<close> is the set of the
  keys of its stored records, these keys being pairwise distinct (the empty summary is
  such a state), by calls to \<open>add\<close> and \<open>prune\<close> in which a record is admitted only
  when \<open>contains\<close> is false on its key, \<open>keys\<close> is exactly the set of the keys of the
  records stored in the channels, and these keys are still pairwise distinct.
\<close>

theorem C1_keys_mirror_when_guarded:
  assumes "keys s = set (retained_keys h s)" and "distinct (retained_keys h s)"
    and "guarded h ops s"
  shows "keys (exec h ops s) = set (retained_keys h (exec h ops s))
         \<and> distinct (retained_keys h (exec h ops s))"
  using assms
proof (induction ops arbitrary: s)
  case Nil
  then show ?case by simp
next
  case (Cons a ops)
  show ?case
  proof (cases a)
    case (Add e)
    have fresh: "key h e \<notin> set (retained_keys h s)"
      using Cons.prems Add by (simp add: contains_def count_key_def split: if_splits)
    have "mset (retained_keys h (add h e s)) = mset (key h e # retained_keys h s)"
      by (simp add: mset_retained_keys_add)
    then have "distinct (retained_keys h (add h e s))
                 \<longleftrightarrow> distinct (key h e # retained_keys h s)"
      by (rule mset_eq_imp_distinct_iff)
    then have "distinct (retained_keys h (add h e s))"
      using fresh Cons.prems(2) by simp
    moreover have "keys (add h e s) = set (retained_keys h (add h e s))"
      by (rule add_keeps_mirror) (rule Cons.prems(1))
    ultimately show ?thesis
      using Cons.IH [of "add h e s"] Cons.prems(3) Add by simp
  next
    case (Prune mx)
    show ?thesis
      using Cons.IH [of "prune h mx s"] Cons.prems Prune
        prune_keeps_mirror [of s h mx] by simp
  qed
qed

text \<open>An instance: scenario A followed by \<open>prune 1\<close>, from the empty summary.\<close>

theorem C1_keys_mirror_witness:
  "keys (exec sample_hash (scenario_A @ [Prune 1]) LogSummary_init)
     = set (retained_keys sample_hash (exec sample_hash (scenario_A @ [Prune 1]) LogSummary_init))
   \<and> distinct
        (retained_keys sample_hash (exec sample_hash (scenario_A @ [Prune 1]) LogSummary_init))"
proof -
  let ?s = "LogSummary_init :: (unit, nat, unit, nat) LogSummary"
  have a: "keys ?s = set (retained_keys sample_hash ?s)"
    by (simp add: LogSummary_init_def retained_keys_def all_entries_def)
  have b: "distinct (retained_keys sample_hash ?s)"
    by (simp add: LogSummary_init_def retained_keys_def all_entries_def)
  have c: "guarded sample_hash (scenario_A @ [Prune 1]) ?s"
    by code_simp
  from C1_keys_mirror_when_guarded [OF a b c] show ?thesis .
qed

text \<open>
  The claim as stated fails when two stored records share a key. X is admitted to the
  channel \<^verbatim>\<open>cluster\<close>, a record with the key of X to the channel \<^verbatim>\<open>audit\<close>, then Z
  to \<^verbatim>\<open>cluster\<close>; \<open>prune 1\<close> pops X and erases its key, which the record in
  \<^verbatim>\<open>audit\<close> still carries.
\<close>

theorem C1_shared_key_counterexample:
  "key sample_hash (sample_entry 1 1 ''audit'')
     \<in> set (retained_keys sample_hash
         (exec sample_hash
            [Add (sample_entry 1 1 ''cluster''), Add (sample_entry 1 1 ''audit''),
             Add (sample_entry 3 3 ''cluster''), Prune 1] LogSummary_init))
   \<and> \<not> contains
         (exec sample_hash
            [Add (sample_entry 1 1 ''cluster''), Add (sample_entry 1 1 ''audit''),
             Add (sample_entry 3 3 ''cluster''), Prune 1] LogSummary_init)
         (key sample_hash (sample_entry 1 1 ''audit''))
   \<and> keys
        (exec sample_hash
           [Add (sample_entry 1 1 ''cluster''), Add (sample_entry 1 1 ''audit''),
            Add (sample_entry 3 3 ''cluster''), Prune 1] LogSummary_init)
      \<noteq> set (retained_keys sample_hash
          (exec sample_hash
             [Add (sample_entry 1 1 ''cluster''), Add (sample_entry 1 1 ''audit''),
              Add (sample_entry 3 3 ''cluster''), Prune 1] LogSummary_init))"
  by code_simp

subsection \<open>C2: admission implies membership\<close>

text \<open>
  C2. Immediately after \<open>add e\<close>, and before any \<open>prune\<close>, the summary contains the key
  of \<open>e\<close>.
\<close>

theorem C2_add_contains: "contains (add h e s) (key h e)"
  by (simp add: contains_def count_key_def add_def)

subsection \<open>C3: prune keeps the newest entries of every channel\<close>

text \<open>
  C3. After \<open>prune h mx\<close> every channel's list has at most \<open>mx\<close> entries: the list of
  a channel is the old list without its first \<open>k - mx\<close> entries, \<open>k\<close> being its old
  length, so a channel that held more than \<open>mx\<close> entries keeps exactly its last \<open>mx\<close>,
  in their order. The set of channels does not change.
\<close>

theorem C3_prune_keeps_newest:
  "length (channel_tail (prune h mx s) c) \<le> mx
   \<and> channel_tail (prune h mx s) c = drop (length (channel_tail s c) - mx) (channel_tail s c)
   \<and> (mx < length (channel_tail s c) \<longrightarrow> length (channel_tail (prune h mx s) c) = mx)
   \<and> map fst (tail_by_channel (prune h mx s)) = map fst (tail_by_channel s)
   \<and> (\<forall>(c', l) \<in> set (tail_by_channel (prune h mx s)). length l \<le> mx)"
  by (auto simp: channel_tail_prune tail_by_channel_prune)

text \<open>An instance: after scenario A, \<open>prune 1\<close> leaves Z alone in \<^verbatim>\<open>cluster\<close>.\<close>

theorem C3_prune_witness:
  "channel_tail (prune sample_hash 1 (exec sample_hash scenario_A LogSummary_init)) ''cluster''
     = [(3, sample_entry 3 3 ''cluster'')]
   \<and> length
        (channel_tail (prune sample_hash 1 (exec sample_hash scenario_A LogSummary_init))
           ''cluster'') = 1"
proof -
  have "channel_tail (exec sample_hash scenario_A LogSummary_init) ''cluster''
          = [(1, sample_entry 1 1 ''cluster''), (3, sample_entry 3 3 ''cluster'')]"
    by code_simp
  with C3_prune_keeps_newest
    [of sample_hash 1 "exec sample_hash scenario_A LogSummary_init" "''cluster''"]
  show ?thesis by simp
qed

subsection \<open>C4: the order of the assigned sequence numbers\<close>

text \<open>
  C4 (as amended). Along every run of \<open>add\<close> and \<open>prune\<close> from the empty summary with
  fewer than \<open>2 ^ 64\<close> admissions, the sequence numbers assigned to the admitted
  records increase strictly in the order of admission, whatever the channels, and in the
  state reached every channel's list is strictly increasing in its sequence numbers.
  \<open>prune\<close> removes entries from the front of a list only.
\<close>

theorem C4_seq_increasing_until_wrap:
  assumes "admissions ops < 2 ^ 64"
  shows "sorted_wrt (<) (assigned h ops LogSummary_init)
         \<and> (\<forall>(c, l) \<in> set (tail_by_channel (exec h ops LogSummary_init)).
               sorted_wrt (<) (map fst l))
         \<and> channel_tail (prune h mx s) c
             = drop (length (channel_tail s c) - mx) (channel_tail s c)"
proof -
  have "unat (summary_seq (LogSummary_init :: ('a, 'b, 'c, 'd) LogSummary)) + admissions ops
          < 2 ^ 64"
    using assms by (simp add: LogSummary_init_def)
  from assigned_increasing [OF bounded_increasing_init this, of h]
  show ?thesis by (auto simp: bounded_increasing_def channel_tail_prune)
qed

text \<open>An instance: scenario A, a \<open>prune\<close>, and scenario A again.\<close>

theorem C4_seq_increasing_witness:
  "sorted_wrt (<) (assigned sample_hash (scenario_A @ [Prune 1] @ scenario_A) LogSummary_init)
   \<and> assigned sample_hash (scenario_A @ [Prune 1] @ scenario_A) LogSummary_init
       = [1, 2, 3, 4, 5, 6]"
proof -
  have "admissions (scenario_A @ [Prune 1] @ scenario_A) < 2 ^ 64"
    by (simp add: scenario_A_def)
  from C4_seq_increasing_until_wrap [OF this, of sample_hash]
  have "sorted_wrt (<)
          (assigned sample_hash (scenario_A @ [Prune 1] @ scenario_A) LogSummary_init)"
    by blast
  moreover have "assigned sample_hash (scenario_A @ [Prune 1] @ scenario_A) LogSummary_init
                   = [1, 2, 3, 4, 5, 6]"
    by (simp add: scenario_A_def assigned_add summary_seq_add summary_seq_prune
        LogSummary_init_def)
  ultimately show ?thesis by simp
qed

text \<open>
  The claim as stated fails when the 64-bit counter wraps. After \<open>2 ^ 64 - 2\<close>
  admissions from the empty summary the counter is \<open>2 ^ 64 - 2\<close>, and the three
  admissions of scenario A get \<open>2 ^ 64 - 1\<close>, then 0, then 1. The second fact is the same
  three steps from a summary whose counter already has that value.
\<close>

theorem C4_wrap_counterexample:
  "\<not> sorted_wrt (<)
       (assigned sample_hash
          (replicate (2 ^ 64 - 2) (Add (sample_entry 1 1 ''cluster'')) @ scenario_A)
          LogSummary_init)
   \<and> assigned sample_hash scenario_A (LogSummary_init\<lparr>summary_seq := 18446744073709551614\<rparr>)
       = [18446744073709551615, 0, 1]"
proof -
  let ?pre = "replicate (2 ^ 64 - 2) (Add (sample_entry 1 1 ''cluster''))"
  let ?s = "exec sample_hash ?pre (LogSummary_init :: (unit, nat, unit, nat) LogSummary)"
  have "summary_seq ?s = of_nat (2 ^ 64 - 2)"
    by (simp only: summary_seq_exec admissions_replicate_Add) (simp add: LogSummary_init_def)
  then have q: "summary_seq ?s = 18446744073709551614" by simp
  have "assigned sample_hash scenario_A ?s = [18446744073709551615, 0, 1]"
    unfolding assigned_scenario_A q by simp
  moreover have "\<not> sorted_wrt (<) [18446744073709551615, 0, 1 :: u64]" by simp
  ultimately have "\<not> sorted_wrt (<) (assigned sample_hash (?pre @ scenario_A) LogSummary_init)"
    by (simp only: assigned_append sorted_wrt_append) simp
  moreover have
    "assigned sample_hash scenario_A (LogSummary_init\<lparr>summary_seq := 18446744073709551614\<rparr>)
       = [18446744073709551615, 0, 1]"
    unfolding assigned_scenario_A by simp
  ultimately show ?thesis by simp
qed

subsection \<open>C5: the ordered tail\<close>




subsection \<open>C6: the hash of a key and equality\<close>

text \<open>
  C6. The default-constructed key and the key built by the constructor from the
  default rank, the default stamp and the sequence number 0 are equal by
  \<^verbatim>\<open>operator==\<close>; when the hash of the default rank is not 0, their hashes differ:
  equal keys do not always have equal hashes.
\<close>

theorem C6_default_key_hash:
  "h r0 \<noteq> 0 \<Longrightarrow>
     LogEntryKey_eq (LogEntryKey_default r0 t0) (LogEntryKey_init h r0 t0 0)
     \<and> get_hash (LogEntryKey_default r0 t0) \<noteq> get_hash (LogEntryKey_init h r0 t0 0)"
  by (simp add: get_hash_init)
    (simp add: LogEntryKey_eq_def LogEntryKey_init_def calc_hash_def LogEntryKey_default_def
      get_hash_def)

theorem C6_default_key_hash_witness:
  "LogEntryKey_eq (LogEntryKey_default (0 :: nat) (0 :: nat))
     (LogEntryKey_init sample_hash 0 (0 :: nat) 0)
   \<and> get_hash (LogEntryKey_default (0 :: nat) (0 :: nat))
       \<noteq> get_hash (LogEntryKey_init sample_hash 0 (0 :: nat) 0)"
proof -
  have "sample_hash 0 \<noteq> 0" by (simp add: sample_hash_def)
  from C6_default_key_hash [of sample_hash 0 "0 :: nat", OF this] show ?thesis .
qed

subsection \<open>C7: a second record with the same key\<close>

text \<open>
  C7. \<open>add\<close> never rejects a record. It appends the record and its sequence number to
  the list of the record's channel and changes no other entry, also when the key of the
  record is already in \<open>keys\<close>, which then stays as it is. So when two records with the
  same key are admitted one after the other, each is appended to the list of its channel
  with its own sequence number, nothing that was stored is replaced or dropped, and
  \<open>keys\<close> holds the shared key once.
\<close>

theorem C7_add_keeps_duplicates:
  assumes "key h e1 = key h e2"
  shows "channel_tail (add h e2 (add h e1 s)) c =
           channel_tail s c
             @ (if c = channel e1 then [(summary_seq s + 1, e1)] else [])
             @ (if c = channel e2 then [(summary_seq s + 2, e2)] else [])
         \<and> mset (all_entries (add h e2 (add h e1 s)))
             = mset (all_entries s) + {#(summary_seq s + 1, e1), (summary_seq s + 2, e2)#}
         \<and> keys (add h e2 (add h e1 s)) = insert (key h e1) (keys s)
         \<and> count_key (keys (add h e2 (add h e1 s))) (key h e1) = 1
         \<and> contains (add h e2 (add h e1 s)) (key h e2)
         \<and> channel_tail (add h e2 s) c =
             channel_tail s c @ (if c = channel e2 then [(summary_seq s + 1, e2)] else [])
         \<and> (key h e1 \<in> keys s \<longrightarrow>
               keys (add h e2 s) = keys s \<and> count_key (keys (add h e2 s)) (key h e2) = 1)"
proof -
  have q: "summary_seq (add h e1 s) + 1 = summary_seq s + 2" by (simp add: add_def)
  have a: "channel_tail (add h e2 (add h e1 s)) c =
           channel_tail s c
             @ (if c = channel e1 then [(summary_seq s + 1, e1)] else [])
             @ (if c = channel e2 then [(summary_seq s + 2, e2)] else [])"
    by (simp add: channel_tail_add q)
  have b: "mset (all_entries (add h e2 (add h e1 s)))
             = mset (all_entries s) + {#(summary_seq s + 1, e1), (summary_seq s + 2, e2)#}"
    by (simp add: mset_all_entries_add q)
  have c: "keys (add h e2 (add h e1 s)) = insert (key h e1) (keys s)"
    using assms by (simp add: add_def)
  then have d: "count_key (keys (add h e2 (add h e1 s))) (key h e1) = 1"
    by (simp add: count_key_def)
  have e: "contains (add h e2 (add h e1 s)) (key h e2)"
    by (simp add: contains_def count_key_def add_def)
  have f: "channel_tail (add h e2 s) c =
             channel_tail s c @ (if c = channel e2 then [(summary_seq s + 1, e2)] else [])"
    by (rule channel_tail_add)
  have g: "keys (add h e2 s) = keys s \<and> count_key (keys (add h e2 s)) (key h e2) = 1"
    if "key h e1 \<in> keys s"
    using that assms by (auto simp: add_def count_key_def)
  from a b c d e f g show ?thesis by blast
qed

text \<open>An instance: two records with the key of X, in two channels of the empty summary.\<close>

theorem C7_add_keeps_duplicates_witness:
  "channel_tail
     (add sample_hash (sample_entry 1 1 ''audit'')
        (add sample_hash (sample_entry 1 1 ''cluster'') LogSummary_init)) ''cluster''
     = [(1, sample_entry 1 1 ''cluster'')]
   \<and> channel_tail
       (add sample_hash (sample_entry 1 1 ''audit'')
          (add sample_hash (sample_entry 1 1 ''cluster'') LogSummary_init)) ''audit''
       = [(2, sample_entry 1 1 ''audit'')]
   \<and> count_key
       (keys (add sample_hash (sample_entry 1 1 ''audit'')
          (add sample_hash (sample_entry 1 1 ''cluster'') LogSummary_init)))
       (key sample_hash (sample_entry 1 1 ''cluster'')) = 1
   \<and> keys (add sample_hash (sample_entry 1 1 ''audit'')
          (add sample_hash (sample_entry 1 1 ''cluster'') LogSummary_init))
       = keys (add sample_hash (sample_entry 1 1 ''cluster'') LogSummary_init)"
proof -
  let ?s0 = "LogSummary_init :: (unit, nat, unit, nat) LogSummary"
  let ?s1 = "add sample_hash (sample_entry 1 1 ''cluster'') ?s0"
  have k: "key sample_hash (sample_entry 1 1 ''cluster'')
             = key sample_hash (sample_entry 1 1 ''audit'')"
    by (simp add: key_def sample_entry_def)
  have e: "channel_tail ?s0 c = []" for c
    by (simp add: channel_tail_def LogSummary_init_def)
  have z: "summary_seq ?s0 = 0"
    by (simp add: LogSummary_init_def)
  have ch: "channel (sample_entry 1 1 ''cluster'') = ''cluster''"
    "channel (sample_entry 1 1 ''audit'') = ''audit''"
    by (simp_all add: sample_entry_def)
  have m: "key sample_hash (sample_entry 1 1 ''cluster'') \<in> keys ?s1"
    by (simp add: add_def)
  from C7_add_keeps_duplicates [OF k, of ?s0 "''cluster''"]
    C7_add_keeps_duplicates [OF k, of ?s0 "''audit''"]
  have "channel_tail (add sample_hash (sample_entry 1 1 ''audit'') ?s1) ''cluster''
          = [(1, sample_entry 1 1 ''cluster'')]"
    and "channel_tail (add sample_hash (sample_entry 1 1 ''audit'') ?s1) ''audit''
          = [(2, sample_entry 1 1 ''audit'')]"
    and "count_key (keys (add sample_hash (sample_entry 1 1 ''audit'') ?s1))
           (key sample_hash (sample_entry 1 1 ''cluster'')) = 1"
    using ch by (simp_all add: e z)
  moreover from C7_add_keeps_duplicates [OF k, of ?s1 "''audit''"] m
  have "keys (add sample_hash (sample_entry 1 1 ''audit'') ?s1) = keys ?s1"
    by blast
  ultimately show ?thesis by simp
qed

subsection \<open>C8: parsing a severity\<close>

text \<open>
  C8. \<open>parse_severity\<close> returns a value for every text and every table: the severity
  of an entry of the table whose name equals the text up to the case of the letters, or
  \<^verbatim>\<open>CLOG_UNKNOWN\<close> when the table has no such entry. Two texts that differ in the case
  of their letters only get the same severity.
\<close>

theorem C8_parse_severity_total:
  "((\<exists>(n, t) \<in> set tbl. iequals text n \<and> parse_severity tbl text = t)
      \<or> ((\<forall>(n, t) \<in> set tbl. \<not> iequals text n) \<and> parse_severity tbl text = CLOG_UNKNOWN))
   \<and> (iequals text text' \<longrightarrow> parse_severity tbl text' = parse_severity tbl text)"
proof -
  have a: "(\<exists>(n, t) \<in> set tbl. iequals text n \<and> parse_severity tbl text = t)
      \<or> ((\<forall>(n, t) \<in> set tbl. \<not> iequals text n) \<and> parse_severity tbl text = CLOG_UNKNOWN)"
  proof (induction tbl)
    case Nil
    show ?case by simp
  next
    case (Cons a tbl)
    obtain n t where a: "a = (n, t)" by (cases a)
    show ?case
    proof (cases "iequals text n")
      case True
      then show ?thesis by (simp add: a)
    next
      case False
      then show ?thesis using Cons.IH by (auto simp: a)
    qed
  qed
  have "parse_severity tbl text' = parse_severity tbl text" if "iequals text text'"
    using that by (induction tbl) (auto simp: iequals_def)
  with a show ?thesis by blast
qed

text \<open>An instance, on the sample table: a name in mixed case, and a text that is no
  name of the table.\<close>

theorem C8_parse_severity_witness:
  "parse_severity sample_table ''WaRn'' = CLOG_WARN
   \<and> parse_severity sample_table ''bogus'' = CLOG_UNKNOWN"
proof -
  have i: "iequals ''warn'' ''WaRn''" by code_simp
  have w: "parse_severity sample_table ''warn'' = CLOG_WARN" by code_simp
  have n: "\<forall>(n, t) \<in> set sample_table. \<not> iequals ''bogus'' n" by code_simp
  from C8_parse_severity_total [of sample_table "''warn''" "''WaRn''"] i w
  have "parse_severity sample_table ''WaRn'' = CLOG_WARN" by simp
  moreover from C8_parse_severity_total [of sample_table "''bogus''" "''bogus''"] n
  have "parse_severity sample_table ''bogus'' = CLOG_UNKNOWN" by blast
  ultimately show ?thesis by simp
qed

subsection \<open>C10: the hash does not read the stamp\<close>

text \<open>
  C10. Two keys built by the constructor from the same rank and the same sequence number
  and from two different stamps are not equal, yet they have the same hash, the sum of
  the sequence number and the hash of the rank. The default-constructed key does not
  follow: against the key built by the constructor from the default rank, another stamp
  and the sequence number 0, rank and sequence number are equal and the stamps differ,
  but the hashes are 0 and the hash of the default rank, which differ when the latter
  is not 0.
\<close>

theorem C10_hash_ignores_stamp_but_default:
  "(t1 \<noteq> t2 \<longrightarrow>
      \<not> LogEntryKey_eq (LogEntryKey_init h w t1 s) (LogEntryKey_init h w t2 s)
      \<and> get_hash (LogEntryKey_init h w t1 s) = get_hash (LogEntryKey_init h w t2 s)
      \<and> get_hash (LogEntryKey_init h w t1 s) = s + h w)
   \<and> (h r0 \<noteq> 0 \<and> t1 \<noteq> t0 \<longrightarrow>
      key_rank (LogEntryKey_default r0 t0) = key_rank (LogEntryKey_init h r0 t1 0)
      \<and> key_seq (LogEntryKey_default r0 t0) = key_seq (LogEntryKey_init h r0 t1 0)
      \<and> key_stamp (LogEntryKey_default r0 t0) \<noteq> key_stamp (LogEntryKey_init h r0 t1 0)
      \<and> \<not> LogEntryKey_eq (LogEntryKey_default r0 t0) (LogEntryKey_init h r0 t1 0)
      \<and> get_hash (LogEntryKey_default r0 t0) = 0
      \<and> get_hash (LogEntryKey_init h r0 t1 0) = h r0
      \<and> get_hash (LogEntryKey_default r0 t0) \<noteq> get_hash (LogEntryKey_init h r0 t1 0))"
proof -
  have a: "\<not> LogEntryKey_eq (LogEntryKey_init h w t1 s) (LogEntryKey_init h w t2 s)
      \<and> get_hash (LogEntryKey_init h w t1 s) = get_hash (LogEntryKey_init h w t2 s)
      \<and> get_hash (LogEntryKey_init h w t1 s) = s + h w"
    if "t1 \<noteq> t2"
    using that by (rule init_hash_ignores_stamp)
  have b: "key_rank (LogEntryKey_default r0 t0) = key_rank (LogEntryKey_init h r0 t1 0)
      \<and> key_seq (LogEntryKey_default r0 t0) = key_seq (LogEntryKey_init h r0 t1 0)
      \<and> key_stamp (LogEntryKey_default r0 t0) \<noteq> key_stamp (LogEntryKey_init h r0 t1 0)
      \<and> \<not> LogEntryKey_eq (LogEntryKey_default r0 t0) (LogEntryKey_init h r0 t1 0)
      \<and> get_hash (LogEntryKey_default r0 t0) = 0
      \<and> get_hash (LogEntryKey_init h r0 t1 0) = h r0
      \<and> get_hash (LogEntryKey_default r0 t0) \<noteq> get_hash (LogEntryKey_init h r0 t1 0)"
    if "h r0 \<noteq> 0" and "t1 \<noteq> t0"
    using that by (simp add: get_hash_init)
      (auto simp: LogEntryKey_eq_def LogEntryKey_init_def calc_hash_def
        LogEntryKey_default_def get_hash_def)
  from a b show ?thesis by blast
qed

text \<open>An instance: stamps 1 and 2 for the constructor, and the default key against the
  key built from the default rank 0, the stamp 1 and the sequence number 0.\<close>

theorem C10_hash_ignores_stamp_but_default_witness:
  "\<not> LogEntryKey_eq (LogEntryKey_init sample_hash 0 (1 :: nat) 5)
        (LogEntryKey_init sample_hash 0 (2 :: nat) 5)
   \<and> get_hash (LogEntryKey_init sample_hash 0 (1 :: nat) 5)
       = get_hash (LogEntryKey_init sample_hash 0 (2 :: nat) 5)
   \<and> \<not> LogEntryKey_eq (LogEntryKey_default (0 :: nat) (0 :: nat))
        (LogEntryKey_init sample_hash 0 (1 :: nat) 0)
   \<and> get_hash (LogEntryKey_default (0 :: nat) (0 :: nat))
       \<noteq> get_hash (LogEntryKey_init sample_hash 0 (1 :: nat) 0)"
proof -
  have a: "(1 :: nat) \<noteq> 2" by simp
  have b: "sample_hash 0 \<noteq> 0 \<and> (1 :: nat) \<noteq> 0" by (simp add: sample_hash_def)
  from C10_hash_ignores_stamp_but_default [of "1 :: nat" 2 sample_hash 0 5 0 0] a b
  show ?thesis by blast
qed

end
